theory Spec2Isabelle
  imports Main "HOL-Library.AList"
begin

section \<open>The resource pool of src/internal/pool.js\<close>

text \<open>
  The pool keeps three JavaScript objects used as dictionaries from keys to values
  (\<open>_pools\<close>, \<open>_acquireRequests\<close>, \<open>_activeResourceCounts\<close>). A JavaScript
  object enumerates its string keys in insertion order (\<open>Object.keys\<close> in \<open>purgeAll\<close>),
  so each of them is an association list: \<open>map_of\<close> reads a property,
  \<open>AList.update\<close> assigns one (a new key goes last) and \<open>AList.delete\<close> is
  \<open>delete obj[key]\<close>. (Names that look like array indices are enumerated first;
  nothing below depends on the order of \<open>purgeAll\<close>.)

  The three objects are created as \<open>{}\<close>, so a lookup \<open>obj[key]\<close> and the test
  \<open>key in obj\<close> also find the properties that every object inherits from
  \<open>Object.prototype\<close>. For those names the pool does not work as a pool: \<open>has\<close> is
  always true, \<open>_release\<close> throws a \<open>TypeError\<close> (the inherited value has no
  \<open>push\<close> and no \<open>shift\<close>), \<open>purge\<close> and \<open>_acquire\<close> throw for some of them,
  and the counters turn into strings. A key of the model is any other string: the type
  \<open>key\<close> leaves the inherited names out, and for every key of this type a lookup
  finds the pool's own entry or nothing. \<open>Key\<close> writes a key from its name (it is only
  used with names that are not inherited).

  An idle list is a JavaScript array in array order: \<open>push\<close> appends at the end and
  \<open>pop\<close> takes the last element. A pending queue is an array too: \<open>push\<close>
  appends, \<open>shift\<close> takes the first element.

  The three callbacks of the pool are outside it. \<open>validate\<close> is a parameter of every
  operation that calls it; the calls of \<open>destroy\<close> are logged; the promise of
  \<open>create\<close> is settled by the environment, with an error or with a resource (an
  object, so never \<open>null\<close>). The callbacks neither throw nor call back into the
  pool while they run. The logger has no effect on the state and is left out. Counters
  are JavaScript numbers that only ever hold small integers: \<open>int\<close>.
\<close>

definition inherited_names :: "string list" where
  "inherited_names =
     [''constructor'', ''toString'', ''toLocaleString'', ''valueOf'', ''hasOwnProperty'',
      ''isPrototypeOf'', ''propertyIsEnumerable'', ''__proto__'', ''__defineGetter__'',
      ''__defineSetter__'', ''__lookupGetter__'', ''__lookupSetter__'']"

typedef key = "{k :: string. k \<notin> set inherited_names}"
  morphisms name_of Abs_key
proof
  show "[] \<in> {k :: string. k \<notin> set inherited_names}"
    by (simp add: inherited_names_def)
qed

setup_lifting type_definition_key

lift_definition Key :: "string \<Rightarrow> key" is
  "\<lambda>k. if k \<in> set inherited_names then [] else k"
  by (simp add: inherited_names_def)

instantiation key :: equal
begin

lift_definition equal_key :: "key \<Rightarrow> key \<Rightarrow> bool" is "(=)" .

instance
  by standard (transfer, simp)

end

type_synonym resource = nat

datatype error =
  AcquisitionTimedOut int   \<comment> \<open>\<open>Connection acquisition timed out in N ms.\<close>\<close>
| FactoryError string       \<comment> \<open>whatever the promise of \<open>create\<close> was rejected with\<close>

record config =
  maxSize :: int
  acquisitionTimeout :: int

text \<open>
  What \<open>_acquire\<close> returns: \<open>Promise.resolve(resource)\<close>,
  \<open>Promise.resolve(null)\<close>, or the promise of \<open>this._create(key, this._release)\<close>,
  which the factory settles later.
\<close>

datatype acquire_promise = Resolved "resource option" | Created

text \<open>
  The callbacks that wait for the promise of \<open>_acquire\<close>: the \<open>then\<close> of
  \<open>acquire\<close>, or the \<open>catch\<close>/\<open>then\<close> pair of
  \<open>_processPendingAcquireRequests\<close>, which holds the pending request it serves.
\<close>

datatype continuation = Direct | ForPending nat

record task =
  tkey :: key
  cont :: continuation
  promise :: acquire_promise

record PendingRequest =
  timeoutId :: nat
  completed :: bool

text \<open>What a caller's future is settled with.\<close>

datatype outcome = Fulfilled resource | Rejected error

text \<open>
  The state: the three dictionaries of the pool, and what the pool's code reaches
  through references and callbacks: the \<open>PendingRequest\<close> objects (by identity), the
  timers that are still scheduled (each holds the key and the request of its closure),
  the promises of \<open>_acquire\<close> whose callbacks have not run yet, the log of the
  \<open>destroy\<close> calls, and the log of the settlements of the callers' futures. Every
  call of \<open>acquire\<close> has an identity, which is also the identity of the pending
  request and of the timer it may create.
\<close>

record pool_state =
  pools :: "(key \<times> resource list) list"
  acquireRequests :: "(key \<times> nat list) list"
  activeResourceCounts :: "(key \<times> int) list"
  requests :: "nat \<rightharpoonup> PendingRequest"
  timers :: "nat \<rightharpoonup> key \<times> nat"
  inflight :: "nat \<rightharpoonup> task"
  destroyed :: "resource list"
  delivered :: "(nat \<times> outcome) list"
  nextId :: nat

definition init :: pool_state where
  "init = \<lparr> pools = [], acquireRequests = [], activeResourceCounts = [],
            requests = Map.empty, timers = Map.empty, inflight = Map.empty,
            destroyed = [], delivered = [], nextId = 0 \<rparr>"

subsection \<open>Counters\<close>

definition resourceAcquired :: "key \<Rightarrow> (key \<times> int) list \<Rightarrow> (key \<times> int) list" where
  "resourceAcquired key activeCounts =
     (let currentCount = (case map_of activeCounts key of None \<Rightarrow> 0 | Some c \<Rightarrow> c)
      in AList.update key (currentCount + 1) activeCounts)"

definition resourceReleased :: "key \<Rightarrow> (key \<times> int) list \<Rightarrow> (key \<times> int) list" where
  "resourceReleased key activeCounts =
     (let currentCount = (case map_of activeCounts key of None \<Rightarrow> 0 | Some c \<Rightarrow> c);
          nextCount = currentCount - 1
      in if nextCount > 0 then AList.update key nextCount activeCounts
         else AList.delete key activeCounts)"

definition activeResourceCount :: "pool_state \<Rightarrow> key \<Rightarrow> int" where
  "activeResourceCount s key =
     (case map_of (activeResourceCounts s) key of None \<Rightarrow> 0 | Some c \<Rightarrow> c)"

definition has :: "pool_state \<Rightarrow> key \<Rightarrow> bool" where
  "has s key = (key \<in> set (map fst (pools s)))"

subsection \<open>PendingRequest\<close>

text \<open>
  \<open>clearTimeout\<close> unschedules the timer; \<open>this._resolve\<close> and \<open>this._reject\<close>
  settle the future of the \<open>acquire\<close> call that created the request, which the model
  records in \<open>delivered\<close>. A reference to a request always points to a request;
  the \<open>None\<close> branches below are never taken.
\<close>

definition isCompleted :: "pool_state \<Rightarrow> nat \<Rightarrow> bool" where
  "isCompleted s rq = (case requests s rq of None \<Rightarrow> False | Some p \<Rightarrow> completed p)"

definition complete :: "nat \<Rightarrow> outcome \<Rightarrow> pool_state \<Rightarrow> pool_state" where
  "complete rq out s =
     (case requests s rq of
        None \<Rightarrow> s
      | Some p \<Rightarrow>
          if completed p then s
          else s\<lparr> requests := (requests s)(rq \<mapsto> p\<lparr>completed := True\<rparr>),
                  timers := (timers s)(timeoutId p := None),
                  delivered := delivered s @ [(rq, out)] \<rparr>)"

definition resolve :: "nat \<Rightarrow> resource \<Rightarrow> pool_state \<Rightarrow> pool_state" where
  "resolve rq resource s = complete rq (Fulfilled resource) s"

definition reject :: "nat \<Rightarrow> error \<Rightarrow> pool_state \<Rightarrow> pool_state" where
  "reject rq err s = complete rq (Rejected err) s"

subsection \<open>The pool\<close>

text \<open>
  The \<open>while (pool.length)\<close> loop of \<open>_acquire\<close>: the result, the array that is
  left, and the log of \<open>destroy\<close> calls.
\<close>

function acquire_loop ::
  "(resource \<Rightarrow> bool) \<Rightarrow> resource list \<Rightarrow> resource list
     \<Rightarrow> resource option \<times> resource list \<times> resource list" where
  "acquire_loop validate pool ds =
     (if pool = [] then (None, pool, ds)
      else if validate (last pool) then (Some (last pool), butlast pool, ds)
      else acquire_loop validate (butlast pool) (ds @ [last pool]))"
  by pat_completeness auto
termination
  by (relation "measure (\<lambda>(validate, pool, ds). length pool)") auto

declare acquire_loop.simps [simp del]

text \<open>\<open>_acquire\<close>.\<close>

definition internal_acquire ::
  "config \<Rightarrow> (resource \<Rightarrow> bool) \<Rightarrow> key \<Rightarrow> pool_state \<Rightarrow> acquire_promise \<times> pool_state" where
  "internal_acquire cfg validate key s =
     (let pool = (case map_of (pools s) key of None \<Rightarrow> [] | Some p \<Rightarrow> p);
          (found, pool', ds) = acquire_loop validate pool (destroyed s);
          s1 = s\<lparr> pools := AList.update key pool' (pools s), destroyed := ds \<rparr>
      in case found of
           Some resource \<Rightarrow> (Resolved (Some resource), s1)
         | None \<Rightarrow>
             if maxSize cfg \<noteq> 0 \<and> activeResourceCount s1 key \<ge> maxSize cfg
             then (Resolved None, s1)
             else (Created, s1))"

text \<open>
  \<open>_processPendingAcquireRequests\<close>, up to the call of \<open>_acquire\<close>; the callbacks
  it attaches are \<open>pending_settled\<close> below. An empty array is truthy, so the queue
  entry is deleted only when \<open>shift\<close> finds the array empty.
\<close>

definition processPendingAcquireRequests ::
  "config \<Rightarrow> (resource \<Rightarrow> bool) \<Rightarrow> key \<Rightarrow> pool_state \<Rightarrow> pool_state" where
  "processPendingAcquireRequests cfg validate key s =
     (case map_of (acquireRequests s) key of
        None \<Rightarrow> s
      | Some [] \<Rightarrow> s\<lparr> acquireRequests := AList.delete key (acquireRequests s) \<rparr>
      | Some (pendingRequest # rest) \<Rightarrow>
          (let s1 = s\<lparr> acquireRequests := AList.update key rest (acquireRequests s) \<rparr>;
               (p, s2) = internal_acquire cfg validate key s1
           in s2\<lparr> inflight := (inflight s2)(nextId s2 \<mapsto>
                      \<lparr> tkey = key, cont = ForPending pendingRequest, promise = p \<rparr>),
                   nextId := nextId s2 + 1 \<rparr>))"

text \<open>\<open>_release\<close>.\<close>

definition internal_release ::
  "config \<Rightarrow> (resource \<Rightarrow> bool) \<Rightarrow> key \<Rightarrow> resource \<Rightarrow> pool_state \<Rightarrow> pool_state" where
  "internal_release cfg validate key resource s =
     (let s1 = (case map_of (pools s) key of
                  Some pool \<Rightarrow>
                    if \<not> validate resource then s\<lparr> destroyed := destroyed s @ [resource] \<rparr>
                    else s\<lparr> pools := AList.update key (pool @ [resource]) (pools s) \<rparr>
                | None \<Rightarrow> s\<lparr> destroyed := destroyed s @ [resource] \<rparr>);
          s2 = s1\<lparr> activeResourceCounts := resourceReleased key (activeResourceCounts s1) \<rparr>
      in processPendingAcquireRequests cfg validate key s2)"

text \<open>
  The callbacks of \<open>_processPendingAcquireRequests\<close>, run with what the promise of
  \<open>_acquire\<close> was settled with: \<open>Inl\<close> a rejection (the \<open>catch\<close> handler rejects
  the request and passes \<open>null\<close> on), \<open>Inr\<close> the value.
\<close>

definition pending_settled ::
  "config \<Rightarrow> (resource \<Rightarrow> bool) \<Rightarrow> key \<Rightarrow> nat \<Rightarrow> error + resource option
     \<Rightarrow> pool_state \<Rightarrow> pool_state" where
  "pending_settled cfg validate key pendingRequest settlement s =
     (case settlement of
        Inl err \<Rightarrow> reject pendingRequest err s
      | Inr None \<Rightarrow> s
      | Inr (Some resource) \<Rightarrow>
          if isCompleted s pendingRequest then internal_release cfg validate key resource s
          else resolve pendingRequest resource
                 (s\<lparr> activeResourceCounts := resourceAcquired key (activeResourceCounts s) \<rparr>))"

text \<open>
  \<open>acquire\<close>: the synchronous part calls \<open>_acquire\<close> and attaches the \<open>then\<close>
  callback; \<open>acquire_settled\<close> is what happens when the promise of \<open>_acquire\<close> is
  settled. A rejection skips the callback and rejects the caller's future with the
  same error. The executor of \<open>new Promise\<close> runs at once: it schedules the timer,
  creates the request and pushes it.
\<close>

definition acquire :: "config \<Rightarrow> (resource \<Rightarrow> bool) \<Rightarrow> key \<Rightarrow> pool_state \<Rightarrow> pool_state" where
  "acquire cfg validate key s =
     (let (p, s1) = internal_acquire cfg validate key s
      in s1\<lparr> inflight := (inflight s1)(nextId s1 \<mapsto>
                 \<lparr> tkey = key, cont = Direct, promise = p \<rparr>),
              nextId := nextId s1 + 1 \<rparr>)"

definition acquire_settled ::
  "config \<Rightarrow> key \<Rightarrow> nat \<Rightarrow> error + resource option \<Rightarrow> pool_state \<Rightarrow> pool_state" where
  "acquire_settled cfg key call settlement s =
     (case settlement of
        Inl err \<Rightarrow> s\<lparr> delivered := delivered s @ [(call, Rejected err)] \<rparr>
      | Inr (Some resource) \<Rightarrow>
          s\<lparr> activeResourceCounts := resourceAcquired key (activeResourceCounts s),
             delivered := delivered s @ [(call, Fulfilled resource)] \<rparr>
      | Inr None \<Rightarrow>
          (let allRequests = (case map_of (acquireRequests s) key of
                                None \<Rightarrow> AList.update key [] (acquireRequests s)
                              | Some existing \<Rightarrow> acquireRequests s);
               queue = (case map_of allRequests key of None \<Rightarrow> [] | Some q \<Rightarrow> q)
           in s\<lparr> timers := (timers s)(call \<mapsto> (key, call)),
                 requests := (requests s)(call \<mapsto> \<lparr> timeoutId = call, completed = False \<rparr>),
                 acquireRequests := AList.update key (queue @ [call]) allRequests \<rparr>))"

text \<open>The callback of \<open>setTimeout\<close> in \<open>acquire\<close>.\<close>

definition timeout_callback :: "config \<Rightarrow> key \<Rightarrow> nat \<Rightarrow> pool_state \<Rightarrow> pool_state" where
  "timeout_callback cfg key request s =
     (let s1 = (case map_of (acquireRequests s) key of
                  None \<Rightarrow> s
                | Some pendingRequests \<Rightarrow>
                    s\<lparr> acquireRequests :=
                         AList.update key (filter (\<lambda>item. item \<noteq> request) pendingRequests)
                           (acquireRequests s) \<rparr>)
      in if isCompleted s1 request then s1
         else reject request (AcquisitionTimedOut (acquisitionTimeout cfg)) s1)"

text \<open>\<open>purge\<close>: the loop pops and destroys from the end of the array.\<close>

function purge_loop :: "resource list \<Rightarrow> resource list \<Rightarrow> resource list" where
  "purge_loop pool ds =
     (if pool = [] then ds else purge_loop (butlast pool) (ds @ [last pool]))"
  by pat_completeness auto
termination
  by (relation "measure (\<lambda>(pool, ds). length pool)") auto

declare purge_loop.simps [simp del]

definition purge :: "key \<Rightarrow> pool_state \<Rightarrow> pool_state" where
  "purge key s =
     (let pool = (case map_of (pools s) key of None \<Rightarrow> [] | Some p \<Rightarrow> p)
      in s\<lparr> destroyed := purge_loop pool (destroyed s),
            pools := AList.delete key (pools s) \<rparr>)"

definition purgeAll :: "pool_state \<Rightarrow> pool_state" where
  "purgeAll s = fold purge (map fst (pools s)) s"

subsection \<open>The event loop\<close>

text \<open>
  JavaScript runs one piece of code at a time. An event is one such piece: a call of
  the public interface, a call of the release function that the factory was given, the
  settlement of a promise of \<open>_acquire\<close> (with the result of the factory when the
  promise is the factory's), or a timer that fires. An event that cannot happen (the
  promise is not waiting, the timer is not scheduled) leaves the state as it is.
  \<open>validate\<close> is the answer of the validation callback during the event; it may
  differ from one event to the next.
\<close>

datatype event =
  Acquire key
| Release key resource
| Settle nat "error + resource"
| TimerFired nat
| Purge key
| PurgeAll

definition settlement_of :: "acquire_promise \<Rightarrow> error + resource \<Rightarrow> error + resource option" where
  "settlement_of p factory =
     (case p of
        Resolved v \<Rightarrow> Inr v
      | Created \<Rightarrow> (case factory of Inl err \<Rightarrow> Inl err | Inr resource \<Rightarrow> Inr (Some resource)))"

fun step :: "config \<Rightarrow> (resource \<Rightarrow> bool) \<Rightarrow> event \<Rightarrow> pool_state \<Rightarrow> pool_state" where
  "step cfg validate (Acquire key) s = acquire cfg validate key s"
| "step cfg validate (Release key resource) s = internal_release cfg validate key resource s"
| "step cfg validate (Settle t factory) s =
     (case inflight s t of
        None \<Rightarrow> s
      | Some tk \<Rightarrow>
          (let s1 = s\<lparr> inflight := (inflight s)(t := None) \<rparr>;
               settlement = settlement_of (promise tk) factory
           in case cont tk of
                Direct \<Rightarrow> acquire_settled cfg (tkey tk) t settlement s1
              | ForPending rq \<Rightarrow> pending_settled cfg validate (tkey tk) rq settlement s1))"
| "step cfg validate (TimerFired t) s =
     (case timers s t of
        None \<Rightarrow> s
      | Some (key, rq) \<Rightarrow> timeout_callback cfg key rq (s\<lparr> timers := (timers s)(t := None) \<rparr>))"
| "step cfg validate (Purge key) s = purge key s"
| "step cfg validate PurgeAll s = purgeAll s"

fun run :: "config \<Rightarrow> ((resource \<Rightarrow> bool) \<times> event) list \<Rightarrow> pool_state \<Rightarrow> pool_state" where
  "run cfg [] s = s"
| "run cfg ((validate, e) # es) s = run cfg es (step cfg validate e s)"

subsection \<open>Observations\<close>

text \<open>
  The idle resources of a key and its pending queue, read as the code reads them
  (\<open>this._pools[key] || []\<close>): a missing entry is an empty array.
\<close>

definition idle :: "pool_state \<Rightarrow> key \<Rightarrow> resource list" where
  "idle s key = (case map_of (pools s) key of None \<Rightarrow> [] | Some pool \<Rightarrow> pool)"

definition pending :: "pool_state \<Rightarrow> key \<Rightarrow> nat list" where
  "pending s key = (case map_of (acquireRequests s) key of None \<Rightarrow> [] | Some q \<Rightarrow> q)"

text \<open>
  The number of settlements of the future of call \<open>c\<close> is the number of entries of
  \<open>c\<close> in \<open>delivered\<close>. The invariant that bounds it: a request has one
  settlement when it is completed and none before; a call whose \<open>then\<close> callback
  has not run yet has none, and no request; identities that are not yet in use have
  nothing.
\<close>

definition delivery_inv :: "pool_state \<Rightarrow> bool" where
  "delivery_inv s =
     ((\<forall>c p. requests s c = Some p \<longrightarrow>
         count_list (map fst (delivered s)) c = (if completed p then 1 else 0)) \<and>
      (\<forall>t tk. inflight s t = Some tk \<and> cont tk = Direct \<longrightarrow>
         count_list (map fst (delivered s)) t = 0 \<and> requests s t = None) \<and>
      (\<forall>c. nextId s \<le> c \<longrightarrow>
         inflight s c = None \<and> requests s c = None \<and> count_list (map fst (delivered s)) c = 0) \<and>
      (\<forall>c. count_list (map fst (delivered s)) c \<le> 1))"




section \<open>Properties\<close>

subsection \<open>Keys\<close>

lemma Key_eq:
  "(Key a = Key b) =
     ((if a \<in> set inherited_names then [] else a) = (if b \<in> set inherited_names then [] else b))"
  by transfer simp

lemma Key_A_B: "Key ''A'' \<noteq> Key ''B''" "Key ''B'' \<noteq> Key ''A''"
  by (simp_all add: Key_eq inherited_names_def)


subsection \<open>Iteration over an idle list\<close>

lemma acquire_loop_Nil: "acquire_loop validate [] ds = (None, [], ds)"
  by (simp add: acquire_loop.simps)

lemma acquire_loop_snoc:
  "acquire_loop validate (pool @ [r]) ds =
     (if validate r then (Some r, pool, ds) else acquire_loop validate pool (ds @ [r]))"
  by (subst acquire_loop.simps) simp

lemma acquire_loop_Some:
  "acquire_loop validate pool ds = (Some r, pool', ds') \<Longrightarrow>
     validate r \<and> (\<exists>rest. pool = pool' @ r # rest \<and> (\<forall>x\<in>set rest. \<not> validate x) \<and> ds' = ds @ rev rest)"
proof (induction pool arbitrary: ds rule: rev_induct)
  case Nil
  then show ?case by (simp add: acquire_loop_Nil)
next
  case (snoc x xs)
  show ?case
  proof (cases "validate x")
    case True
    with snoc.prems show ?thesis by (simp add: acquire_loop_snoc)
  next
    case False
    with snoc.prems have "acquire_loop validate xs (ds @ [x]) = (Some r, pool', ds')"
      by (simp add: acquire_loop_snoc)
    from snoc.IH [OF this] obtain rest where
      "validate r" "xs = pool' @ r # rest" "\<forall>x\<in>set rest. \<not> validate x" "ds' = (ds @ [x]) @ rev rest"
      by blast
    with False show ?thesis by (intro conjI exI [of _ "rest @ [x]"]) auto
  qed
qed

lemma acquire_loop_None:
  "acquire_loop validate pool ds = (None, pool', ds') \<Longrightarrow>
     pool' = [] \<and> (\<forall>x\<in>set pool. \<not> validate x) \<and> ds' = ds @ rev pool"
proof (induction pool arbitrary: ds rule: rev_induct)
  case Nil
  then show ?case by (simp add: acquire_loop_Nil)
next
  case (snoc x xs)
  show ?case
  proof (cases "validate x")
    case True
    with snoc.prems show ?thesis by (simp add: acquire_loop_snoc)
  next
    case False
    with snoc.prems have "acquire_loop validate xs (ds @ [x]) = (None, pool', ds')"
      by (simp add: acquire_loop_snoc)
    from snoc.IH [OF this] False show ?thesis by auto
  qed
qed

lemma purge_loop_rev: "purge_loop pool ds = ds @ rev pool"
proof (induction pool arbitrary: ds rule: rev_induct)
  case Nil
  show ?case by (simp add: purge_loop.simps)
next
  case (snoc x xs)
  show ?case by (subst purge_loop.simps) (simp add: snoc.IH)
qed

lemma internal_acquire_frame:
  "internal_acquire cfg validate key s = (p, s') \<Longrightarrow>
     acquireRequests s' = acquireRequests s \<and> activeResourceCounts s' = activeResourceCounts s \<and>
     requests s' = requests s \<and> timers s' = timers s \<and> inflight s' = inflight s \<and>
     delivered s' = delivered s \<and> nextId s' = nextId s"
  by (auto simp: internal_acquire_def Let_def split: prod.splits option.splits if_splits)

lemma internal_acquire_pools:
  "internal_acquire cfg validate key s = (p, s') \<Longrightarrow>
     \<exists>pool'. pools s' = AList.update key pool' (pools s)"
  by (auto simp: internal_acquire_def Let_def split: prod.splits option.splits if_splits)

subsection \<open>The idle-list entry of a key\<close>

lemma has_update: "has (s\<lparr>pools := AList.update k v (pools s)\<rparr>) k' = (k' = k \<or> has s k')"
  using dom_update [of k v "pools s"] by (auto simp: has_def)

lemma has_internal_acquire:
  "has (snd (internal_acquire cfg validate key s)) k = (k = key \<or> has s k)"
proof -
  obtain p s' where eq: "internal_acquire cfg validate key s = (p, s')"
    by (cases "internal_acquire cfg validate key s")
  from internal_acquire_pools [OF eq] obtain pool' where "pools s' = AList.update key pool' (pools s)"
    by blast
  then show ?thesis
    using dom_update [of key pool' "pools s"] by (auto simp: eq has_def)
qed

lemma has_acquire: "has (acquire cfg validate key s) k = (k = key \<or> has s k)"
  using has_internal_acquire [of cfg validate key s k]
  by (simp add: acquire_def has_def case_prod_beta)

lemma has_complete: "has (complete rq out s) k = has s k"
  by (simp add: complete_def has_def split: option.splits)

lemma has_processPending:
  "has s k \<Longrightarrow> has (processPendingAcquireRequests cfg validate key s) k"
proof (cases "map_of (acquireRequests s) key")
  case None
  assume "has s k"
  with None show ?thesis by (simp add: processPendingAcquireRequests_def)
next
  case (Some q)
  assume h: "has s k"
  show ?thesis
  proof (cases q)
    case Nil
    with Some h show ?thesis by (simp add: processPendingAcquireRequests_def has_def)
  next
    case (Cons r rest)
    let ?s1 = "s\<lparr> acquireRequests := AList.update key rest (acquireRequests s) \<rparr>"
    from h have "has ?s1 k" by (simp add: has_def)
    then have "has (snd (internal_acquire cfg validate key ?s1)) k"
      by (simp add: has_internal_acquire)
    with Some Cons show ?thesis
      by (simp add: processPendingAcquireRequests_def has_def case_prod_beta Let_def)
  qed
qed

lemma has_internal_release:
  "has s k \<Longrightarrow> has (internal_release cfg validate key resource s) k"
  unfolding internal_release_def Let_def
  apply (rule has_processPending)
  using dom_update [of key _ "pools s"]
  apply (auto simp: has_def split: option.splits)
  done

lemma has_pending_settled:
  "has s k \<Longrightarrow> has (pending_settled cfg validate key rq settlement s) k"
  by (auto simp: pending_settled_def reject_def resolve_def has_complete has_internal_release
      split: sum.splits option.splits) (simp add: has_def)

lemma has_acquire_settled:
  "has (acquire_settled cfg key call settlement s) k = has s k"
  by (simp add: acquire_settled_def has_def Let_def split: sum.splits option.splits)

lemma has_timeout_callback:
  "has (timeout_callback cfg key rq s) k = has s k"
  by (simp add: timeout_callback_def reject_def has_complete Let_def split: option.splits)
     (simp add: has_def)

lemma has_purge_other: "k \<noteq> key \<Longrightarrow> has (purge key s) k = has s k"
  by (simp add: purge_def has_def Let_def delete_keys)

lemma has_step:
  assumes "has s k" "e \<noteq> Purge k" "e \<noteq> PurgeAll"
  shows "has (step cfg validate e s) k"
proof (cases e)
  case (Settle t factory)
  show ?thesis
  proof (cases "inflight s t")
    case None
    with Settle assms show ?thesis by simp
  next
    case (Some tk)
    have "has (s\<lparr> inflight := (inflight s)(t := None) \<rparr>) k"
      using assms(1) by (simp add: has_def)
    with Settle Some show ?thesis
      by (simp add: Let_def has_acquire_settled has_pending_settled split: continuation.splits)
  qed
next
  case (TimerFired t)
  have "has (s\<lparr> timers := (timers s)(t := None) \<rparr>) k"
    using assms(1) by (simp add: has_def)
  with TimerFired assms show ?thesis
    by (simp add: has_timeout_callback split: option.splits)
qed (use assms in \<open>auto simp: has_acquire has_internal_release has_purge_other\<close>)

lemma has_run:
  "has s k \<Longrightarrow> \<forall>(v, e) \<in> set es. e \<noteq> Purge k \<and> e \<noteq> PurgeAll \<Longrightarrow> has (run cfg es s) k"
proof (induction es arbitrary: s)
  case Nil
  then show ?case by simp
next
  case (Cons ve es)
  obtain v e where ve: "ve = (v, e)" by (cases ve)
  with Cons.prems have "has (step cfg v e s) k" by (auto intro: has_step)
  with Cons ve show ?case by auto
qed

text \<open>
  C10: once \<open>acquire(key)\<close> has been called, \<open>has(key)\<close> is true after any further
  events, whatever their outcome, as long as none of them purges the key
  (\<open>purge(key)\<close> or \<open>purgeAll()\<close>).
\<close>

theorem has_after_acquire:
  "\<forall>(v, e) \<in> set es. e \<noteq> Purge key \<and> e \<noteq> PurgeAll \<Longrightarrow>
     has (run cfg es (step cfg validate (Acquire key) s)) key"
  by (rule has_run) (simp_all add: has_acquire)

theorem has_after_acquire_witness:
  "has (run \<lparr>maxSize = 1, acquisitionTimeout = 50\<rparr>
          [(\<lambda>r. True, Settle 0 (Inl (FactoryError ''refused''))),
           (\<lambda>r. True, Purge (Key ''B'')),
           (\<lambda>r. True, Acquire (Key ''B''))]
          (step \<lparr>maxSize = 1, acquisitionTimeout = 50\<rparr> (\<lambda>r. True) (Acquire (Key ''A'')) init)) (Key ''A'')"
  using has_after_acquire [of
      "[(\<lambda>r. True, Settle 0 (Inl (FactoryError ''refused''))),
        (\<lambda>r. True, Purge (Key ''B'')),
        (\<lambda>r. True, Acquire (Key ''B''))]" "Key ''A''" "\<lparr>maxSize = 1, acquisitionTimeout = 50\<rparr>" "\<lambda>r. True" init]
  by (simp add: Key_A_B)

subsection \<open>What each operation leaves unchanged\<close>

lemma internal_acquire_snd [simp]:
  "acquireRequests (snd (internal_acquire cfg validate key s)) = acquireRequests s"
  "activeResourceCounts (snd (internal_acquire cfg validate key s)) = activeResourceCounts s"
  "requests (snd (internal_acquire cfg validate key s)) = requests s"
  "timers (snd (internal_acquire cfg validate key s)) = timers s"
  "inflight (snd (internal_acquire cfg validate key s)) = inflight s"
  "delivered (snd (internal_acquire cfg validate key s)) = delivered s"
  "nextId (snd (internal_acquire cfg validate key s)) = nextId s"
  using internal_acquire_frame [of cfg validate key s]
  by (cases "internal_acquire cfg validate key s"; simp)+

lemma acquire_frame [simp]:
  "acquireRequests (acquire cfg validate key s) = acquireRequests s"
  "activeResourceCounts (acquire cfg validate key s) = activeResourceCounts s"
  "requests (acquire cfg validate key s) = requests s"
  "timers (acquire cfg validate key s) = timers s"
  "delivered (acquire cfg validate key s) = delivered s"
  "nextId (acquire cfg validate key s) = nextId s + 1"
  by (simp_all add: acquire_def case_prod_beta)

lemma complete_frame [simp]:
  "pools (complete rq out s) = pools s"
  "acquireRequests (complete rq out s) = acquireRequests s"
  "activeResourceCounts (complete rq out s) = activeResourceCounts s"
  "inflight (complete rq out s) = inflight s"
  "destroyed (complete rq out s) = destroyed s"
  "nextId (complete rq out s) = nextId s"
  by (simp_all add: complete_def split: option.splits)

lemma processPending_frame [simp]:
  "activeResourceCounts (processPendingAcquireRequests cfg validate key s) = activeResourceCounts s"
  "requests (processPendingAcquireRequests cfg validate key s) = requests s"
  "timers (processPendingAcquireRequests cfg validate key s) = timers s"
  "delivered (processPendingAcquireRequests cfg validate key s) = delivered s"
  by (simp_all add: processPendingAcquireRequests_def case_prod_beta Let_def
      split: option.splits list.splits)

lemma internal_release_frame [simp]:
  "activeResourceCounts (internal_release cfg validate key resource s) =
     resourceReleased key (activeResourceCounts s)"
  "requests (internal_release cfg validate key resource s) = requests s"
  "timers (internal_release cfg validate key resource s) = timers s"
  "delivered (internal_release cfg validate key resource s) = delivered s"
  by (simp_all add: internal_release_def Let_def split: option.splits)

lemma timeout_callback_frame [simp]:
  "pools (timeout_callback cfg key rq s) = pools s"
  "activeResourceCounts (timeout_callback cfg key rq s) = activeResourceCounts s"
  "inflight (timeout_callback cfg key rq s) = inflight s"
  "destroyed (timeout_callback cfg key rq s) = destroyed s"
  "nextId (timeout_callback cfg key rq s) = nextId s"
  by (simp_all add: timeout_callback_def reject_def Let_def split: option.splits)

lemma purge_frame [simp]:
  "acquireRequests (purge key s) = acquireRequests s"
  "activeResourceCounts (purge key s) = activeResourceCounts s"
  "requests (purge key s) = requests s"
  "timers (purge key s) = timers s"
  "inflight (purge key s) = inflight s"
  "delivered (purge key s) = delivered s"
  "nextId (purge key s) = nextId s"
  by (simp_all add: purge_def Let_def)

lemma fold_purge_frame:
  "acquireRequests (fold purge ks s) = acquireRequests s \<and>
   activeResourceCounts (fold purge ks s) = activeResourceCounts s \<and>
   requests (fold purge ks s) = requests s \<and>
   timers (fold purge ks s) = timers s \<and>
   inflight (fold purge ks s) = inflight s \<and>
   delivered (fold purge ks s) = delivered s \<and>
   nextId (fold purge ks s) = nextId s"
  by (induction ks arbitrary: s) simp_all

lemma purgeAll_frame [simp]:
  "acquireRequests (purgeAll s) = acquireRequests s"
  "activeResourceCounts (purgeAll s) = activeResourceCounts s"
  "requests (purgeAll s) = requests s"
  "timers (purgeAll s) = timers s"
  "inflight (purgeAll s) = inflight s"
  "delivered (purgeAll s) = delivered s"
  "nextId (purgeAll s) = nextId s"
  by (simp_all add: purgeAll_def fold_purge_frame)

subsection \<open>The active counters\<close>






text \<open>
  C1: with \<open>maxSize = 1\<close>, two calls of \<open>acquire\<close> for the same key made before the
  factory has answered the first both pass the capacity check, since the active counter
  is incremented only when a creation completes. When both creations complete, both
  callers hold a resource and \<open>activeResourceCount\<close> is 2.
\<close>

theorem maxSize_exceeded_by_concurrent_acquire:
  "(let cfg = \<lparr>maxSize = 1, acquisitionTimeout = 50\<rparr>;
        s = run cfg [(\<lambda>r. True, Acquire (Key ''A'')), (\<lambda>r. True, Acquire (Key ''A'')),
                     (\<lambda>r. True, Settle 0 (Inr 1)), (\<lambda>r. True, Settle 1 (Inr 2))] init
    in activeResourceCount s (Key ''A'') = 2 \<and> maxSize cfg = 1 \<and>
       delivered s = [(0, Fulfilled 1), (1, Fulfilled 2)])"
  by code_simp

text \<open>
  C6: the synchronous part of \<open>acquire\<close> leaves the active counters as they are, and
  when the factory's promise of a direct \<open>acquire\<close> call is rejected, the caller's
  future is rejected with that same error and nothing else changes: the counters (so
  \<open>activeResourceCount\<close> of every key), the idle lists and the pending queues are
  what they were.
\<close>

theorem factory_rejection_direct:
  "activeResourceCounts (step cfg validate (Acquire key) s) = activeResourceCounts s \<and>
   (inflight s t = Some tk \<and> cont tk = Direct \<and> promise tk = Created \<longrightarrow>
      (let s' = step cfg validate (Settle t (Inl err)) s
       in delivered s' = delivered s @ [(t, Rejected err)] \<and>
          activeResourceCounts s' = activeResourceCounts s \<and>
          activeResourceCount s' k = activeResourceCount s k \<and>
          pools s' = pools s \<and> acquireRequests s' = acquireRequests s \<and>
          requests s' = requests s \<and> timers s' = timers s \<and>
          destroyed s' = destroyed s \<and> inflight s' = (inflight s)(t := None)))"
  by (simp add: Let_def settlement_of_def acquire_settled_def activeResourceCount_def)

theorem factory_rejection_direct_witness:
  "(let cfg = \<lparr>maxSize = 1, acquisitionTimeout = 50\<rparr>;
        s = step cfg (\<lambda>r. True) (Acquire (Key ''B'')) init;
        s' = step cfg (\<lambda>r. True) (Settle 0 (Inl (FactoryError ''refused''))) s
    in inflight s 0 = Some \<lparr>tkey = Key ''B'', cont = Direct, promise = Created\<rparr> \<and>
       delivered s' = [(0, Rejected (FactoryError ''refused''))] \<and>
       activeResourceCount s' (Key ''B'') = 0 \<and>
       map_of (activeResourceCounts s') (Key ''B'') = None)"
proof -
  let ?cfg = "\<lparr>maxSize = 1, acquisitionTimeout = 50\<rparr>"
  let ?s = "step ?cfg (\<lambda>r. True) (Acquire (Key ''B'')) init"
  have t: "inflight ?s 0 = Some \<lparr>tkey = Key ''B'', cont = Direct, promise = Created\<rparr>"
    by (simp add: init_def acquire_def internal_acquire_def acquire_loop.simps
        activeResourceCount_def)
  have c: "activeResourceCounts ?s = []" "delivered ?s = []"
    by (simp_all add: init_def)
  from factory_rejection_direct [of ?cfg "\<lambda>r. True" "Key ''B''" ?s 0
      "\<lparr>tkey = Key ''B'', cont = Direct, promise = Created\<rparr>" "FactoryError ''refused''" "Key ''B''"] t c
  show ?thesis
    by (simp add: Let_def activeResourceCount_def del: step.simps)
qed

subsection \<open>Purge\<close>

lemma idle_purge: "idle (purge key s) key = []"
proof -
  have "key \<notin> fst ` set (AList.delete key (pools s))" by (rule delete_notin_dom)
  then have "map_of (AList.delete key (pools s)) key = None"
    by (simp add: map_of_eq_None_iff)
  then show ?thesis by (simp add: idle_def purge_def Let_def)
qed

lemma not_has_purge: "\<not> has (purge key s) key"
  using delete_notin_dom [of key "pools s"] by (simp add: has_def purge_def Let_def)

lemma internal_acquire_no_idle:
  assumes "idle s key = []"
  shows "fst (internal_acquire cfg validate key s) =
           (if maxSize cfg \<noteq> 0 \<and> maxSize cfg \<le> activeResourceCount s key then Resolved None
            else Created)"
proof -
  have "(case map_of (pools s) key of None \<Rightarrow> [] | Some p \<Rightarrow> p) = []"
    using assms by (simp add: idle_def)
  then show ?thesis
    by (simp add: internal_acquire_def acquire_loop_Nil activeResourceCount_def)
qed

text \<open>
  C7: for every key of the model (every name that is not inherited),
  \<open>purge(key)\<close> passes every idle resource of the key to \<open>destroy\<close> (last one
  first), removes the key's idle-list entry and leaves every other idle list, the active
  counters, the pending queues, the pending requests and their timers unchanged, so
  \<open>has(key)\<close> is false afterwards. A following \<open>acquire(key)\<close> finds no idle resource:
  it calls the factory unless the key is at capacity, and then it is queued.
\<close>

theorem purge_effect:
  "(let s' = purge key s
    in destroyed s' = destroyed s @ rev (idle s key) \<and>
       pools s' = AList.delete key (pools s) \<and>
       \<not> has s' key \<and> idle s' key = [] \<and>
       activeResourceCounts s' = activeResourceCounts s \<and>
       acquireRequests s' = acquireRequests s \<and>
       requests s' = requests s \<and> timers s' = timers s \<and>
       inflight s' = inflight s \<and> delivered s' = delivered s \<and>
       fst (internal_acquire cfg validate key s') =
         (if maxSize cfg \<noteq> 0 \<and> maxSize cfg \<le> activeResourceCount s key then Resolved None
          else Created))"
proof -
  have "fst (internal_acquire cfg validate key (purge key s)) =
          (if maxSize cfg \<noteq> 0 \<and> maxSize cfg \<le> activeResourceCount (purge key s) key
           then Resolved None else Created)"
    by (rule internal_acquire_no_idle) (rule idle_purge)
  moreover have "activeResourceCount (purge key s) key = activeResourceCount s key"
    by (simp add: activeResourceCount_def)
  moreover have "destroyed (purge key s) = destroyed s @ rev (idle s key)"
    by (simp add: purge_def Let_def purge_loop_rev idle_def)
  moreover have "pools (purge key s) = AList.delete key (pools s)"
    by (simp add: purge_def Let_def)
  ultimately show ?thesis
    by (simp add: Let_def not_has_purge idle_purge)
qed

theorem purge_effect_witness:
  "(let cfg = \<lparr>maxSize = 0, acquisitionTimeout = 50\<rparr>;
        s = init\<lparr>pools := [(Key ''A'', [1, 2]), (Key ''B'', [3])]\<rparr>;
        s' = purge (Key ''A'') s
    in destroyed s' = [2, 1] \<and> pools s' = [(Key ''B'', [3])] \<and> \<not> has s' (Key ''A'') \<and>
       fst (internal_acquire cfg (\<lambda>r. True) (Key ''A'') s') = Created)"
  using purge_effect [of "Key ''A''" "init\<lparr>pools := [(Key ''A'', [1, 2]), (Key ''B'', [3])]\<rparr>"
      "\<lparr>maxSize = 0, acquisitionTimeout = 50\<rparr>" "\<lambda>r. True"]
  by (simp add: Let_def init_def idle_def Key_A_B)

theorem purge_then_acquire_at_capacity:
  "(let cfg = \<lparr>maxSize = 1, acquisitionTimeout = 50\<rparr>;
        s = run cfg [(\<lambda>r. True, Acquire (Key ''A'')), (\<lambda>r. True, Settle 0 (Inr 1)),
                     (\<lambda>r. True, Purge (Key ''A'')), (\<lambda>r. True, Acquire (Key ''A''))] init;
        s' = step cfg (\<lambda>r. True) (Settle 1 (Inr 2)) s
    in inflight s 1 = Some \<lparr>tkey = Key ''A'', cont = Direct, promise = Resolved None\<rparr> \<and>
       pending s' (Key ''A'') = [1] \<and> delivered s' = [(0, Fulfilled 1)] \<and>
       activeResourceCount s' (Key ''A'') = 1)"
  by code_simp

subsection \<open>The pending-queue entry of a key\<close>










subsection \<open>Acquisition from the idle list\<close>

lemma internal_acquire_cases:
  assumes "internal_acquire cfg validate key s = (p, s')"
  shows "(\<exists>r rest. p = Resolved (Some r) \<and> validate r \<and>
            idle s key = idle s' key @ r # rest \<and> (\<forall>x\<in>set rest. \<not> validate x) \<and>
            destroyed s' = destroyed s @ rev rest) \<or>
         ((p = Resolved None \<or> p = Created) \<and> idle s' key = [] \<and>
            (\<forall>x\<in>set (idle s key). \<not> validate x) \<and>
            destroyed s' = destroyed s @ rev (idle s key))"
proof -
  obtain found pool' ds where
    loop: "acquire_loop validate (idle s key) (destroyed s) = (found, pool', ds)"
    by (cases "acquire_loop validate (idle s key) (destroyed s)")
  show ?thesis
  proof (cases found)
    case None
    from acquire_loop_None [OF loop [unfolded None]]
    have *: "pool' = []" "\<forall>x\<in>set (idle s key). \<not> validate x" "ds = destroyed s @ rev (idle s key)"
      by simp_all
    from assms loop None have "p = Resolved None \<or> p = Created"
      and "pools s' = AList.update key pool' (pools s)" and "destroyed s' = ds"
      by (auto simp: internal_acquire_def idle_def Let_def split: if_splits)
    with * show ?thesis by (simp add: idle_def update_conv')
  next
    case (Some r)
    from acquire_loop_Some [OF loop [unfolded Some]] obtain rest where
      *: "validate r" "idle s key = pool' @ r # rest" "\<forall>x\<in>set rest. \<not> validate x"
         "ds = destroyed s @ rev rest"
      by blast
    from assms loop Some have "p = Resolved (Some r)"
      and "pools s' = AList.update key pool' (pools s)" and "destroyed s' = ds"
      by (auto simp: internal_acquire_def idle_def Let_def)
    with * show ?thesis by (simp add: idle_def update_conv')
  qed
qed

text \<open>
  C4: a resource that \<open>_acquire\<close> takes from the idle list is valid when it is taken.
  The idle list is searched from its end (the most recently released resource first):
  the resources after the returned one were all invalid and were passed to \<open>destroy\<close>
  in that order, the ones before it stay idle. When none is returned, every idle
  resource was invalid and was destroyed, and the idle list is empty. (A resource that
  the factory creates is handed out as it is.)
\<close>

theorem idle_resource_validated:
  "internal_acquire cfg validate key s = (p, s') \<Longrightarrow>
     (\<forall>r. p = Resolved (Some r) \<longrightarrow>
        validate r \<and>
        (\<exists>rest. idle s key = idle s' key @ r # rest \<and> (\<forall>x\<in>set rest. \<not> validate x) \<and>
                destroyed s' = destroyed s @ rev rest)) \<and>
     ((p = Resolved None \<or> p = Created) \<longrightarrow>
        idle s' key = [] \<and> (\<forall>x\<in>set (idle s key). \<not> validate x) \<and>
        destroyed s' = destroyed s @ rev (idle s key))"
  using internal_acquire_cases [of cfg validate key s p s'] by auto

theorem idle_resource_validated_witness:
  "(let validate = (\<lambda>r. r \<noteq> 3);
        s = init\<lparr>pools := [(Key ''A'', [1, 2, 3])]\<rparr>;
        (p, s') = internal_acquire \<lparr>maxSize = 0, acquisitionTimeout = 50\<rparr> validate (Key ''A'') s
    in p = Resolved (Some 2) \<and> validate 2 \<and> idle s' (Key ''A'') = [1] \<and> destroyed s' = [3])"
proof -
  let ?v = "\<lambda>r::resource. r \<noteq> 3"
  let ?s = "init\<lparr>pools := [(Key ''A'', [1, 2, 3])]\<rparr>"
  let ?cfg = "\<lparr>maxSize = 0, acquisitionTimeout = 50\<rparr>"
  obtain p s' where eq: "internal_acquire ?cfg ?v (Key ''A'') ?s = (p, s')"
    by (cases "internal_acquire ?cfg ?v (Key ''A'') ?s")
  have p: "p = Resolved (Some 2)"
    using eq by (auto simp: internal_acquire_def init_def acquire_loop.simps Let_def)
  have i: "idle s' (Key ''A'') = [1]" "destroyed s' = [3]"
    using eq by (auto simp: internal_acquire_def init_def acquire_loop.simps idle_def Let_def)
  from idle_resource_validated [OF eq] p have "?v 2" by blast
  with p i eq show ?thesis by simp
qed

theorem created_resource_not_validated:
  "(let validate = (\<lambda>r. r \<noteq> 7);
        s = run \<lparr>maxSize = 1, acquisitionTimeout = 50\<rparr>
              [(validate, Acquire (Key ''A'')), (validate, Settle 0 (Inr 7))] init
    in delivered s = [(0, Fulfilled 7)] \<and> \<not> validate 7 \<and>
       activeResourceCount s (Key ''A'') = 1 \<and> destroyed s = [])"
  by code_simp

subsection \<open>Release\<close>

lemma internal_acquire_destroyed:
  "\<exists>more. destroyed (snd (internal_acquire cfg validate key s)) = destroyed s @ more"
  using internal_acquire_cases [of cfg validate key s
      "fst (internal_acquire cfg validate key s)" "snd (internal_acquire cfg validate key s)"]
  by auto

lemma internal_acquire_last_valid:
  assumes "map_of (pools s) key = Some (pool @ [resource])" "validate resource"
  shows "internal_acquire cfg validate key s =
           (Resolved (Some resource), s\<lparr>pools := AList.update key pool (pools s)\<rparr>)"
  using assms by (simp add: internal_acquire_def acquire_loop_snoc Let_def)


lemma processPending_no_queue:
  "pending s key = [] \<Longrightarrow>
     pools (processPendingAcquireRequests cfg validate key s) = pools s \<and>
     destroyed (processPendingAcquireRequests cfg validate key s) = destroyed s \<and>
     inflight (processPendingAcquireRequests cfg validate key s) = inflight s \<and>
     nextId (processPendingAcquireRequests cfg validate key s) = nextId s"
  by (auto simp: processPendingAcquireRequests_def pending_def split: option.splits list.splits)




subsection \<open>Serving a pending request\<close>

lemma activeResourceCount_released:
  "activeResourceCount (s\<lparr>activeResourceCounts := resourceReleased key (activeResourceCounts s)\<rparr>) key
     = max 0 (activeResourceCount s key - 1)"
  by (simp add: activeResourceCount_def resourceReleased_def Let_def update_conv' delete_conv')

lemma activeResourceCount_acquired:
  "activeResourceCount (s\<lparr>activeResourceCounts := resourceAcquired key (activeResourceCounts s)\<rparr>) key
     = activeResourceCount s key + 1"
  by (simp add: activeResourceCount_def resourceAcquired_def update_conv')

lemma processPending_keeps:
  assumes "resource \<in> set (destroyed s) \<or>
           (\<exists>pool. map_of (pools s) key = Some (pool @ [resource]) \<and> validate resource)"
  shows "resource \<in> set (idle (processPendingAcquireRequests cfg validate key s) key) \<or>
         resource \<in> set (destroyed (processPendingAcquireRequests cfg validate key s)) \<or>
         (\<exists>rq. inflight (processPendingAcquireRequests cfg validate key s) (nextId s) =
            Some \<lparr>tkey = key, cont = ForPending rq, promise = Resolved (Some resource)\<rparr>)"
proof (cases "pending s key")
  case Nil
  from processPending_no_queue [OF this, of cfg validate] assms
  show ?thesis by (auto simp: idle_def)
next
  case (Cons rq rest)
  then have q: "map_of (acquireRequests s) key = Some (rq # rest)"
    by (simp add: pending_def split: option.splits)
  let ?s1 = "s\<lparr>acquireRequests := AList.update key rest (acquireRequests s)\<rparr>"
  from assms show ?thesis
  proof
    assume "resource \<in> set (destroyed s)"
    moreover obtain more where
      "destroyed (snd (internal_acquire cfg validate key ?s1)) = destroyed ?s1 @ more"
      using internal_acquire_destroyed by blast
    ultimately show ?thesis
      using q by (simp add: processPendingAcquireRequests_def Let_def case_prod_beta)
  next
    assume "\<exists>pool. map_of (pools s) key = Some (pool @ [resource]) \<and> validate resource"
    then obtain pool where "map_of (pools ?s1) key = Some (pool @ [resource])" "validate resource"
      by auto
    then have "internal_acquire cfg validate key ?s1 =
                 (Resolved (Some resource), ?s1\<lparr>pools := AList.update key pool (pools ?s1)\<rparr>)"
      by (rule internal_acquire_last_valid)
    then show ?thesis
      using q by (simp add: processPendingAcquireRequests_def Let_def)
  qed
qed

lemma internal_release_keeps:
  "resource \<in> set (idle (internal_release cfg validate key resource s) key) \<or>
   resource \<in> set (destroyed (internal_release cfg validate key resource s)) \<or>
   (\<exists>rq. inflight (internal_release cfg validate key resource s) (nextId s) =
      Some \<lparr>tkey = key, cont = ForPending rq, promise = Resolved (Some resource)\<rparr>)"
proof -
  let ?s1 = "case map_of (pools s) key of
               Some pool \<Rightarrow>
                 if \<not> validate resource then s\<lparr> destroyed := destroyed s @ [resource] \<rparr>
                 else s\<lparr> pools := AList.update key (pool @ [resource]) (pools s) \<rparr>
             | None \<Rightarrow> s\<lparr> destroyed := destroyed s @ [resource] \<rparr>"
  let ?s2 = "?s1\<lparr> activeResourceCounts := resourceReleased key (activeResourceCounts ?s1) \<rparr>"
  have "resource \<in> set (destroyed ?s2) \<or>
        (\<exists>pool. map_of (pools ?s2) key = Some (pool @ [resource]) \<and> validate resource)"
    by (auto simp: update_conv' split: option.splits)
  moreover have "nextId ?s2 = nextId s"
    by (auto split: option.splits)
  moreover have "internal_release cfg validate key resource s =
                   processPendingAcquireRequests cfg validate key ?s2"
    by (simp add: internal_release_def Let_def)
  ultimately show ?thesis
    using processPending_keeps [where s = ?s2 and resource = resource and key = key
        and validate = validate and cfg = cfg] by simp
qed

text \<open>
  C3: the callbacks of pending-request servicing, run with a resource. If the request
  is already completed, the resource goes through \<open>_release\<close>: nothing is delivered to
  the request again, the active counter is not incremented (\<open>_release\<close> decrements it),
  and the resource is afterwards idle, or destroyed (it failed validation or the key was
  purged), or already offered to the next pending request. If the request is still
  pending, it is resolved with the resource, the active counter is incremented, and the
  idle lists are not touched.
\<close>

theorem pending_service_resource:
  "requests s rq = Some p \<Longrightarrow>
     (let s' = pending_settled cfg validate key rq (Inr (Some resource)) s
      in (completed p \<longrightarrow>
            s' = internal_release cfg validate key resource s \<and>
            delivered s' = delivered s \<and> requests s' = requests s \<and>
            activeResourceCount s' key = max 0 (activeResourceCount s key - 1) \<and>
            (resource \<in> set (idle s' key) \<or> resource \<in> set (destroyed s') \<or>
             (\<exists>next. inflight s' (nextId s) =
                Some \<lparr>tkey = key, cont = ForPending next, promise = Resolved (Some resource)\<rparr>))) \<and>
         (\<not> completed p \<longrightarrow>
            delivered s' = delivered s @ [(rq, Fulfilled resource)] \<and>
            isCompleted s' rq \<and>
            activeResourceCount s' key = activeResourceCount s key + 1 \<and>
            pools s' = pools s \<and> destroyed s' = destroyed s \<and>
            acquireRequests s' = acquireRequests s \<and> inflight s' = inflight s))"
proof (cases "completed p")
  case True
  assume rq: "requests s rq = Some p"
  with True have "pending_settled cfg validate key rq (Inr (Some resource)) s =
                    internal_release cfg validate key resource s"
    by (simp add: pending_settled_def isCompleted_def)
  moreover have "activeResourceCount (internal_release cfg validate key resource s) key =
                   max 0 (activeResourceCount s key - 1)"
    using activeResourceCount_released [where s = s and key = key] by (simp add: activeResourceCount_def)
  ultimately show ?thesis
    using True internal_release_keeps [where s = s and key = key and cfg = cfg
        and validate = validate and resource = resource] by (simp add: Let_def)
next
  case False
  assume rq: "requests s rq = Some p"
  let ?s1 = "s\<lparr>activeResourceCounts := resourceAcquired key (activeResourceCounts s)\<rparr>"
  from rq False have eq: "pending_settled cfg validate key rq (Inr (Some resource)) s =
                    complete rq (Fulfilled resource) ?s1"
    by (simp add: pending_settled_def isCompleted_def resolve_def)
  have "activeResourceCount (complete rq (Fulfilled resource) ?s1) key =
          activeResourceCount s key + 1"
    using activeResourceCount_acquired [where s = s and key = key] by (simp add: activeResourceCount_def)
  moreover have "delivered (complete rq (Fulfilled resource) ?s1) =
                   delivered s @ [(rq, Fulfilled resource)]"
    and "isCompleted (complete rq (Fulfilled resource) ?s1) rq"
    using rq False by (simp_all add: complete_def isCompleted_def)
  ultimately show ?thesis
    using False by (simp add: Let_def eq)
qed

theorem pending_service_resource_witness:
  "(let cfg = \<lparr>maxSize = 1, acquisitionTimeout = 50\<rparr>;
        s = init\<lparr>pools := [(Key ''A'', [])],
                 requests := [3 \<mapsto> \<lparr>timeoutId = 3, completed = True\<rparr>,
                              4 \<mapsto> \<lparr>timeoutId = 4, completed = False\<rparr>]\<rparr>;
        s3 = pending_settled cfg (\<lambda>r. True) (Key ''A'') 3 (Inr (Some 8)) s;
        s4 = pending_settled cfg (\<lambda>r. True) (Key ''A'') 4 (Inr (Some 8)) s
    in delivered s3 = [] \<and> activeResourceCount s3 (Key ''A'') = 0 \<and>
       delivered s4 = [(4, Fulfilled 8)] \<and> activeResourceCount s4 (Key ''A'') = 1)"
proof -
  let ?cfg = "\<lparr>maxSize = 1, acquisitionTimeout = 50\<rparr>"
  let ?s = "init\<lparr>pools := [(Key ''A'', [])],
                 requests := [3 \<mapsto> \<lparr>timeoutId = 3, completed = True\<rparr>,
                              4 \<mapsto> \<lparr>timeoutId = 4, completed = False\<rparr>]\<rparr>"
  let ?s3 = "pending_settled ?cfg (\<lambda>r. True) (Key ''A'') 3 (Inr (Some 8)) ?s"
  let ?s4 = "pending_settled ?cfg (\<lambda>r. True) (Key ''A'') 4 (Inr (Some 8)) ?s"
  have r3: "requests ?s 3 = Some \<lparr>timeoutId = 3, completed = True\<rparr>"
    and r4: "requests ?s 4 = Some \<lparr>timeoutId = 4, completed = False\<rparr>"
    by simp_all
  have c: "activeResourceCount ?s (Key ''A'') = 0" "delivered ?s = []"
    by (simp_all add: activeResourceCount_def init_def)
  have d3: "completed \<lparr>timeoutId = 3, completed = True\<rparr>"
    and d4: "\<not> completed \<lparr>timeoutId = 4, completed = False\<rparr>"
    by simp_all
  from pending_service_resource [OF r3, of ?cfg "\<lambda>r. True" "Key ''A''" 8, unfolded Let_def,
      THEN conjunct1, rule_format, OF d3]
  have "delivered ?s3 = delivered ?s \<and>
        activeResourceCount ?s3 (Key ''A'') = max 0 (activeResourceCount ?s (Key ''A'') - 1)"
    by blast
  moreover from pending_service_resource [OF r4, of ?cfg "\<lambda>r. True" "Key ''A''" 8, unfolded Let_def,
      THEN conjunct2, rule_format, OF d4]
  have "delivered ?s4 = delivered ?s @ [(4, Fulfilled 8)] \<and>
        activeResourceCount ?s4 (Key ''A'') = activeResourceCount ?s (Key ''A'') + 1"
    by blast
  ultimately show ?thesis
    unfolding Let_def c by simp
qed

subsection \<open>At most one settlement for each call\<close>

lemma delivery_inv_init: "delivery_inv init"
  by (simp add: delivery_inv_def init_def)

lemma delivery_inv_cong:
  "requests s' = requests s \<Longrightarrow> inflight s' = inflight s \<Longrightarrow> delivered s' = delivered s \<Longrightarrow>
     nextId s' = nextId s \<Longrightarrow> delivery_inv s' = delivery_inv s"
  by (simp add: delivery_inv_def)

lemma delivery_inv_complete:
  assumes "delivery_inv s"
  shows "delivery_inv (complete rq out s)"
proof (cases "requests s rq")
  case None
  with assms show ?thesis by (simp add: complete_def)
next
  case (Some p)
  show ?thesis
  proof (cases "completed p")
    case True
    with Some assms show ?thesis by (simp add: complete_def)
  next
    case False
    from assms Some False have c0: "count_list (map fst (delivered s)) rq = 0"
      by (auto simp: delivery_inv_def)
    have eq: "complete rq out s =
            s\<lparr> requests := (requests s)(rq \<mapsto> p\<lparr>completed := True\<rparr>),
               timers := (timers s)(timeoutId p := None),
               delivered := delivered s @ [(rq, out)] \<rparr>"
      using Some False by (simp add: complete_def)
    show ?thesis
      using assms Some False c0 unfolding eq delivery_inv_def
      by (auto split: if_splits)
  qed
qed

lemma delivery_inv_internal_acquire:
  "delivery_inv (snd (internal_acquire cfg validate key s)) = delivery_inv s"
  by (rule delivery_inv_cong) simp_all

lemma delivery_inv_new_task:
  assumes "delivery_inv s"
  shows "delivery_inv (s\<lparr>inflight := (inflight s)(nextId s \<mapsto> tk), nextId := nextId s + 1\<rparr>)"
  using assms unfolding delivery_inv_def by auto

lemma delivery_inv_drop_task:
  assumes "delivery_inv s"
  shows "delivery_inv (s\<lparr>inflight := (inflight s)(t := None)\<rparr>)"
  using assms unfolding delivery_inv_def by auto

lemma delivery_inv_acquire:
  assumes "delivery_inv s"
  shows "delivery_inv (acquire cfg validate key s)"
proof -
  let ?s1 = "snd (internal_acquire cfg validate key s)"
  have "delivery_inv ?s1" using assms by (simp add: delivery_inv_internal_acquire)
  from delivery_inv_new_task [OF this, of "\<lparr>tkey = key, cont = Direct,
      promise = fst (internal_acquire cfg validate key s)\<rparr>"]
  show ?thesis by (simp add: acquire_def case_prod_beta)
qed

lemma delivery_inv_processPending:
  assumes "delivery_inv s"
  shows "delivery_inv (processPendingAcquireRequests cfg validate key s)"
proof (cases "map_of (acquireRequests s) key")
  case None
  with assms show ?thesis by (simp add: processPendingAcquireRequests_def)
next
  case (Some q)
  show ?thesis
  proof (cases q)
    case Nil
    have "delivery_inv (s\<lparr>acquireRequests := AList.delete key (acquireRequests s)\<rparr>) = delivery_inv s"
      by (rule delivery_inv_cong) simp_all
    with Some Nil assms show ?thesis by (simp add: processPendingAcquireRequests_def)
  next
    case (Cons r rest)
    let ?s1 = "s\<lparr>acquireRequests := AList.update key rest (acquireRequests s)\<rparr>"
    let ?s2 = "snd (internal_acquire cfg validate key ?s1)"
    have "delivery_inv ?s1 = delivery_inv s"
      by (rule delivery_inv_cong) simp_all
    with assms have "delivery_inv ?s2" by (simp add: delivery_inv_internal_acquire)
    from delivery_inv_new_task [OF this, of "\<lparr>tkey = key, cont = ForPending r,
        promise = fst (internal_acquire cfg validate key ?s1)\<rparr>"]
    show ?thesis using Some Cons
      by (simp add: processPendingAcquireRequests_def case_prod_beta Let_def)
  qed
qed

lemma delivery_inv_internal_release:
  assumes "delivery_inv s"
  shows "delivery_inv (internal_release cfg validate key resource s)"
proof -
  let ?s1 = "case map_of (pools s) key of
               Some pool \<Rightarrow>
                 if \<not> validate resource then s\<lparr> destroyed := destroyed s @ [resource] \<rparr>
                 else s\<lparr> pools := AList.update key (pool @ [resource]) (pools s) \<rparr>
             | None \<Rightarrow> s\<lparr> destroyed := destroyed s @ [resource] \<rparr>"
  let ?s2 = "?s1\<lparr> activeResourceCounts := resourceReleased key (activeResourceCounts ?s1) \<rparr>"
  have "delivery_inv ?s2 = delivery_inv s"
    by (rule delivery_inv_cong) (simp_all split: option.splits)
  with assms have "delivery_inv (processPendingAcquireRequests cfg validate key ?s2)"
    by (simp add: delivery_inv_processPending)
  then show ?thesis by (simp add: internal_release_def Let_def)
qed

lemma delivery_inv_pending_settled:
  assumes "delivery_inv s"
  shows "delivery_inv (pending_settled cfg validate key rq settlement s)"
proof -
  have "delivery_inv (s\<lparr>activeResourceCounts := resourceAcquired key (activeResourceCounts s)\<rparr>)"
    using assms delivery_inv_cong [of "s\<lparr>activeResourceCounts := resourceAcquired key (activeResourceCounts s)\<rparr>" s]
    by simp
  then show ?thesis
    using assms
    by (simp add: pending_settled_def reject_def resolve_def delivery_inv_complete
        delivery_inv_internal_release split: sum.splits option.splits)
qed

lemma delivery_inv_acquire_settled:
  assumes "delivery_inv s" "inflight s t = Some tk" "cont tk = Direct"
  shows "delivery_inv (acquire_settled cfg key t settlement (s\<lparr>inflight := (inflight s)(t := None)\<rparr>))"
proof -
  from assms have c0: "count_list (map fst (delivered s)) t = 0" and r: "requests s t = None"
    by (auto simp: delivery_inv_def)
  from assms have lt: "t < nextId s"
    unfolding delivery_inv_def by (metis not_le_imp_less option.distinct(1))
  show ?thesis
  proof (cases settlement)
    case (Inl err)
    then show ?thesis
      using assms(1) c0 r lt unfolding acquire_settled_def delivery_inv_def
      by (auto split: if_splits)
  next
    case (Inr v)
    show ?thesis
    proof (cases v)
      case None
      with Inr show ?thesis
        using assms(1) c0 r lt unfolding acquire_settled_def delivery_inv_def Let_def
        by (auto split: if_splits)
    next
      case (Some resource)
      with Inr show ?thesis
        using assms(1) c0 r lt unfolding acquire_settled_def delivery_inv_def
        by (auto split: if_splits)
    qed
  qed
qed

lemma delivery_inv_timeout_callback:
  assumes "delivery_inv s"
  shows "delivery_inv (timeout_callback cfg key rq s)"
proof -
  let ?s1 = "case map_of (acquireRequests s) key of
               None \<Rightarrow> s
             | Some pendingRequests \<Rightarrow>
                 s\<lparr> acquireRequests :=
                      AList.update key (filter (\<lambda>item. item \<noteq> rq) pendingRequests)
                        (acquireRequests s) \<rparr>"
  have "delivery_inv ?s1 = delivery_inv s"
    by (rule delivery_inv_cong) (simp_all split: option.splits)
  with assms show ?thesis
    by (simp add: timeout_callback_def Let_def reject_def delivery_inv_complete)
qed

lemma delivery_inv_purge: "delivery_inv (purge key s) = delivery_inv s"
  by (rule delivery_inv_cong) simp_all

lemma delivery_inv_purgeAll: "delivery_inv (purgeAll s) = delivery_inv s"
  by (rule delivery_inv_cong) simp_all

lemma delivery_inv_step:
  assumes "delivery_inv s"
  shows "delivery_inv (step cfg validate e s)"
proof (cases e)
  case (Acquire key)
  with assms show ?thesis by (simp add: delivery_inv_acquire)
next
  case (Release key resource)
  with assms show ?thesis by (simp add: delivery_inv_internal_release)
next
  case (Settle t factory)
  show ?thesis
  proof (cases "inflight s t")
    case None
    with Settle assms show ?thesis by simp
  next
    case (Some tk)
    show ?thesis
    proof (cases "cont tk")
      case Direct
      from delivery_inv_acquire_settled [OF assms Some Direct]
      show ?thesis using Settle Some Direct by (simp add: Let_def)
    next
      case (ForPending rq)
      from delivery_inv_pending_settled [OF delivery_inv_drop_task [OF assms]]
      show ?thesis using Settle Some ForPending by (simp add: Let_def)
    qed
  qed
next
  case (TimerFired t)
  have "delivery_inv (s\<lparr>timers := (timers s)(t := None)\<rparr>) = delivery_inv s"
    by (rule delivery_inv_cong) simp_all
  with assms TimerFired show ?thesis
    by (simp add: delivery_inv_timeout_callback split: option.splits)
next
  case (Purge key)
  with assms show ?thesis by (simp add: delivery_inv_purge)
next
  case PurgeAll
  with assms show ?thesis by (simp add: delivery_inv_purgeAll)
qed

lemma delivery_inv_run: "delivery_inv s \<Longrightarrow> delivery_inv (run cfg es s)"
proof (induction es arbitrary: s)
  case Nil
  then show ?case by simp
next
  case (Cons ve es)
  obtain v e where ve: "ve = (v, e)" by (cases ve)
  from Cons.IH [OF delivery_inv_step [OF Cons.prems, of cfg v e]] ve show ?case by simp
qed

lemma complete_completed:
  "requests s rq = Some p \<Longrightarrow> completed p \<Longrightarrow> complete rq out s = s"
  by (simp add: complete_def)

lemma complete_pending:
  assumes "requests s rq = Some p" "\<not> completed p"
  shows "delivered (complete rq out s) = delivered s @ [(rq, out)] \<and>
         isCompleted (complete rq out s) rq \<and>
         timers (complete rq out s) (timeoutId p) = None \<and>
         step cfg validate (TimerFired (timeoutId p)) (complete rq out s) = complete rq out s"
  using assms by (simp add: complete_def isCompleted_def)

lemma timer_fired_pending:
  assumes "requests s rq = Some p" "\<not> completed p" "timers s t = Some (key, rq)"
  shows "delivered (step cfg validate (TimerFired t) s) =
           delivered s @ [(rq, Rejected (AcquisitionTimedOut (acquisitionTimeout cfg)))]"
    and "isCompleted (step cfg validate (TimerFired t) s) rq"
    and "pending (step cfg validate (TimerFired t) s) key = filter (\<lambda>item. item \<noteq> rq) (pending s key)"
    and "timers (step cfg validate (TimerFired t) s) t = None"
    and "timers (step cfg validate (TimerFired t) s) (timeoutId p) = None"
proof -
  let ?s0 = "s\<lparr>timers := (timers s)(t := None)\<rparr>"
  let ?s1 = "case map_of (acquireRequests ?s0) key of
               None \<Rightarrow> ?s0
             | Some pendingRequests \<Rightarrow>
                 ?s0\<lparr> acquireRequests :=
                      AList.update key (filter (\<lambda>item. item \<noteq> rq) pendingRequests)
                        (acquireRequests ?s0) \<rparr>"
  have r: "requests ?s1 rq = Some p" using assms by (simp split: option.splits)
  have st: "step cfg validate (TimerFired t) s =
              complete rq (Rejected (AcquisitionTimedOut (acquisitionTimeout cfg))) ?s1"
    using assms r by (simp add: timeout_callback_def Let_def isCompleted_def reject_def)
  have d: "delivered ?s1 = delivered s" "timers ?s1 = (timers s)(t := None)"
    by (simp_all split: option.splits)
  have q: "pending ?s1 key = filter (\<lambda>item. item \<noteq> rq) (pending s key)"
    by (simp add: pending_def update_conv' split: option.splits)
  note cp = complete_pending [OF r assms(2),
      of "Rejected (AcquisitionTimedOut (acquisitionTimeout cfg))" cfg validate]
  show "delivered (step cfg validate (TimerFired t) s) =
           delivered s @ [(rq, Rejected (AcquisitionTimedOut (acquisitionTimeout cfg)))]"
    unfolding st using cp d by simp
  show "isCompleted (step cfg validate (TimerFired t) s) rq"
    unfolding st using cp by simp
  show "pending (step cfg validate (TimerFired t) s) key = filter (\<lambda>item. item \<noteq> rq) (pending s key)"
    unfolding st using q by (simp add: pending_def)
  show "timers (step cfg validate (TimerFired t) s) (timeoutId p) = None"
    unfolding st using cp by simp
  show "timers (step cfg validate (TimerFired t) s) t = None"
    unfolding st using r assms(2) d by (simp add: complete_def)
qed

text \<open>
  C2: in every reachable state the future of a call of \<open>acquire\<close> has been settled
  at most once. For a pending request: once it is completed, \<open>resolve\<close>, \<open>reject\<close>
  and the timer callback deliver nothing and \<open>resolve\<close> and \<open>reject\<close> change
  nothing at all; while it is not completed, \<open>resolve\<close> and \<open>reject\<close> deliver
  their argument once, mark the request completed and unschedule its timer, so that
  the timer cannot fire afterwards; and when its timer fires first, the request is taken
  out of the pending queue of its key and rejected with the timeout error that carries
  the configured \<open>acquisitionTimeout\<close>.
\<close>

theorem pending_request_completes_once:
  "count_list (map fst (delivered (run cfg es init))) c \<le> 1 \<and>
   (requests s rq = Some p \<longrightarrow>
      (completed p \<longrightarrow>
         resolve rq resource s = s \<and> reject rq err s = s \<and>
         delivered (timeout_callback cfg key rq s) = delivered s) \<and>
      (\<not> completed p \<longrightarrow>
         (let s' = resolve rq resource s
          in delivered s' = delivered s @ [(rq, Fulfilled resource)] \<and> isCompleted s' rq \<and>
             timers s' (timeoutId p) = None \<and>
             step cfg validate (TimerFired (timeoutId p)) s' = s' \<and>
             resolve rq resource' s' = s' \<and> reject rq err s' = s') \<and>
         (let s' = reject rq err s
          in delivered s' = delivered s @ [(rq, Rejected err)] \<and> isCompleted s' rq \<and>
             timers s' (timeoutId p) = None \<and>
             step cfg validate (TimerFired (timeoutId p)) s' = s' \<and>
             resolve rq resource s' = s' \<and> reject rq err' s' = s') \<and>
         (timers s t = Some (key, rq) \<longrightarrow>
            (let s' = step cfg validate (TimerFired t) s
             in delivered s' =
                  delivered s @ [(rq, Rejected (AcquisitionTimedOut (acquisitionTimeout cfg)))] \<and>
                isCompleted s' rq \<and>
                pending s' key = filter (\<lambda>item. item \<noteq> rq) (pending s key) \<and>
                rq \<notin> set (pending s' key) \<and>
                timers s' t = None \<and> timers s' (timeoutId p) = None \<and>
                resolve rq resource s' = s' \<and> reject rq err s' = s'))))"
proof (intro conjI impI)
  from delivery_inv_run [OF delivery_inv_init, of cfg es]
  show "count_list (map fst (delivered (run cfg es init))) c \<le> 1"
    by (simp add: delivery_inv_def)
next
  assume "requests s rq = Some p" "completed p"
  then show "resolve rq resource s = s" "reject rq err s = s"
    by (simp_all add: resolve_def reject_def complete_completed)
  from \<open>requests s rq = Some p\<close> \<open>completed p\<close>
  show "delivered (timeout_callback cfg key rq s) = delivered s"
    by (simp add: timeout_callback_def Let_def isCompleted_def split: option.splits)
next
  assume h: "requests s rq = Some p" "\<not> completed p"
  have idem: "\<And>out out'. complete rq out' (complete rq out s) = complete rq out s"
    using h by (simp add: complete_def)
  show "let s' = resolve rq resource s
        in delivered s' = delivered s @ [(rq, Fulfilled resource)] \<and> isCompleted s' rq \<and>
           timers s' (timeoutId p) = None \<and>
           step cfg validate (TimerFired (timeoutId p)) s' = s' \<and>
           resolve rq resource' s' = s' \<and> reject rq err s' = s'"
    using complete_pending [OF h, of "Fulfilled resource" cfg validate] idem
    by (simp add: Let_def resolve_def reject_def del: step.simps)
  show "let s' = reject rq err s
        in delivered s' = delivered s @ [(rq, Rejected err)] \<and> isCompleted s' rq \<and>
           timers s' (timeoutId p) = None \<and>
           step cfg validate (TimerFired (timeoutId p)) s' = s' \<and>
           resolve rq resource s' = s' \<and> reject rq err' s' = s'"
    using complete_pending [OF h, of "Rejected err" cfg validate] idem
    by (simp add: Let_def resolve_def reject_def del: step.simps)
  assume t: "timers s t = Some (key, rq)"
  let ?s' = "step cfg validate (TimerFired t) s"
  note tf = timer_fired_pending [OF h t, where cfg = cfg and validate = validate]
  from tf(2) have "\<exists>p'. requests ?s' rq = Some p' \<and> completed p'"
    unfolding isCompleted_def by (cases "requests ?s' rq") (simp_all del: step.simps)
  then have "resolve rq resource ?s' = ?s'" "reject rq err ?s' = ?s'"
    by (auto simp: resolve_def reject_def complete_completed simp del: step.simps)
  with tf show "let s' = step cfg validate (TimerFired t) s
        in delivered s' =
             delivered s @ [(rq, Rejected (AcquisitionTimedOut (acquisitionTimeout cfg)))] \<and>
           isCompleted s' rq \<and>
           pending s' key = filter (\<lambda>item. item \<noteq> rq) (pending s key) \<and>
           rq \<notin> set (pending s' key) \<and>
           timers s' t = None \<and> timers s' (timeoutId p) = None \<and>
           resolve rq resource s' = s' \<and> reject rq err s' = s'"
    by (simp add: Let_def del: step.simps)
qed

theorem pending_request_completes_once_witness:
  "(let cfg = \<lparr>maxSize = 1, acquisitionTimeout = 50\<rparr>;
        es = [(\<lambda>r. True, Acquire (Key ''A'')), (\<lambda>r. True, Settle 0 (Inr 1)),
              (\<lambda>r. True, Acquire (Key ''A'')), (\<lambda>r. True, Settle 1 (Inr 2))];
        s = run cfg es init;
        s' = step cfg (\<lambda>r. True) (TimerFired 1) s
    in requests s 1 = Some \<lparr>timeoutId = 1, completed = False\<rparr> \<and>
       timers s 1 = Some (Key ''A'', 1) \<and> pending s (Key ''A'') = [1] \<and>
       delivered s' = [(0, Fulfilled 1), (1, Rejected (AcquisitionTimedOut 50))] \<and>
       pending s' (Key ''A'') = [] \<and> isCompleted s' 1 \<and> timers s' 1 = None \<and>
       resolve 1 9 s' = s' \<and>
       count_list (map fst (delivered s)) 0 \<le> 1)"
proof -
  let ?cfg = "\<lparr>maxSize = 1, acquisitionTimeout = 50\<rparr>"
  let ?es = "[(\<lambda>r. True, Acquire (Key ''A'')), (\<lambda>r. True, Settle 0 (Inr 1)),
              (\<lambda>r. True, Acquire (Key ''A'')), (\<lambda>r::resource. True, Settle 1 (Inr 2))]"
  let ?s = "run ?cfg ?es init"
  let ?p = "\<lparr>timeoutId = 1, completed = False\<rparr>"
  have r: "requests ?s 1 = Some ?p" by code_simp
  have np: "\<not> completed ?p" by simp
  have t: "timers ?s 1 = Some (Key ''A'', 1)" by code_simp
  have d: "delivered ?s = [(0, Fulfilled 1)]" "pending ?s (Key ''A'') = [1]" by code_simp+
  note inst = pending_request_completes_once [where cfg = ?cfg and es = ?es and c = 0
      and s = ?s and rq = 1 and p = ?p and key = "Key ''A''" and t = 1 and resource = 9
      and validate = "\<lambda>r. True"]
  from inst [THEN conjunct1]
  have once: "count_list (map fst (delivered ?s)) 0 \<le> 1" .
  from inst [THEN conjunct2, rule_format, OF r, THEN conjunct2, rule_format, OF np,
      THEN conjunct2, THEN conjunct2, rule_format, OF t, unfolded Let_def]
  have fired: "delivered (step ?cfg (\<lambda>r. True) (TimerFired 1) ?s) =
                 delivered ?s @ [(1, Rejected (AcquisitionTimedOut (acquisitionTimeout ?cfg)))] \<and>
               isCompleted (step ?cfg (\<lambda>r. True) (TimerFired 1) ?s) 1 \<and>
               pending (step ?cfg (\<lambda>r. True) (TimerFired 1) ?s) (Key ''A'') =
                 filter (\<lambda>item. item \<noteq> 1) (pending ?s (Key ''A'')) \<and>
               timers (step ?cfg (\<lambda>r. True) (TimerFired 1) ?s) 1 = None \<and>
               resolve 1 9 (step ?cfg (\<lambda>r. True) (TimerFired 1) ?s) =
                 step ?cfg (\<lambda>r. True) (TimerFired 1) ?s"
    by blast
  show ?thesis
    unfolding Let_def using r t once fired by (simp add: d del: step.simps run.simps One_nat_def)
qed

subsection \<open>The pending queues\<close>




























lemma nextId_acquire_settled [simp]:
  "nextId (acquire_settled cfg key c settlement s) = nextId s"
  by (simp add: acquire_settled_def Let_def split: sum.splits option.splits)




end
